theory Spec2Isabelle
  imports Main "HOL-Library.Sublist" "HOL-Library.Monad_Syntax"
begin

section \<open>Nodes, pointers and the store\<close>

text \<open>
  \<^verbatim>\<open>persistent_map.h\<close> builds its tree from heap nodes that point at each other:
  \<^verbatim>\<open>struct node { value _v; size_t _n; node_ptr _l; node_ptr _r; }\<close> with
  \<^verbatim>\<open>node_ptr = std::shared_ptr<node>\<close>, and iterators that hold a raw \<^verbatim>\<open>node*\<close>.
  A pointer is an address or null (\<open>None\<close>); the store is the list of the nodes
  allocated so far, a node's address being its position in it. No function of the header
  writes to a node after its construction, so the store only ever grows.

  \<^verbatim>\<open>size_t\<close> is modelled by \<open>nat\<close>: the only subtraction of the header
  (\<^verbatim>\<open>rhs -= left->_n\<close>) is guarded by \<^verbatim>\<open>rhs >= left->_n\<close>, and no count of
  nodes held in memory reaches \<open>2 ^ 64\<close>.
\<close>

type_synonym addr = nat

record ('k, 'v) node =
  node_v :: "'k \<times> 'v"
  node_n :: nat
  node_l :: "addr option"
  node_r :: "addr option"

type_synonym ('k, 'v) store = "('k, 'v) node list"

text \<open>
  C++ leaves the dereference of a null pointer, of a pointer to no node, and of a
  pointer moved off its object undefined. The model returns these as values.
\<close>

datatype fault = NullDeref | WildPointer | OutOfObject

definition load :: "('k, 'v) store \<Rightarrow> addr option \<Rightarrow> fault + ('k, 'v) node" where
  "load s p =
     (case p of
        None \<Rightarrow> Inl NullDeref
      | Some a \<Rightarrow> if a < length s then Inr (s ! a) else Inl WildPointer)"

text \<open>\<^verbatim>\<open>node(value v) : _v(v), _n(0) {}\<close>: both shared pointers start out null.\<close>

definition node_ctor :: "'k \<times> 'v \<Rightarrow> ('k, 'v) node" where
  "node_ctor v = \<lparr>node_v = v, node_n = 0, node_l = None, node_r = None\<rparr>"

text \<open>\<^verbatim>\<open>node* left() { return _l.get(); }\<close> and \<^verbatim>\<open>right()\<close>.\<close>

definition node_left :: "('k, 'v) node \<Rightarrow> addr option" where
  "node_left nd = node_l nd"

definition node_right :: "('k, 'v) node \<Rightarrow> addr option" where
  "node_right nd = node_r nd"

section \<open>The rank descent \<^verbatim>\<open>node::operator+\<close>\<close>

text \<open>
  \<^verbatim>\<open>
  node* operator+(size_t rhs) const {
      node* next = this;
      node* current;
      node* left;
      do {
          current = next;
          next = next->right();  // until proven otherwise
          left = next->left();
          if (left) {
              if (rhs < left->_n) { next = left; } else { rhs -= left->_n; }
          }
      } while (rhs || next == left);
      return current;
  }
  \<close>
  \<open>plus_body\<close> is one run of the loop body, from the value of \<^verbatim>\<open>next\<close> and
  \<^verbatim>\<open>rhs\<close> at its start to the values of \<^verbatim>\<open>next\<close>, \<^verbatim>\<open>left\<close> and \<^verbatim>\<open>rhs\<close> at its
  end; every \<^verbatim>\<open>->\<close> is a \<open>load\<close>. \<^verbatim>\<open>current\<close> is the \<^verbatim>\<open>next\<close> the body started from.
  On a store with a cycle the loop need not end, so \<open>plus_loop\<close> is a partial
  function: \<open>None\<close> is a run that never returns, \<open>Some (Inl e)\<close> a run that stops in
  the fault \<open>e\<close>, \<open>Some (Inr p)\<close> a run that returns the pointer \<open>p\<close>.
\<close>

definition plus_body ::
  "('k, 'v) store \<Rightarrow> addr option \<Rightarrow> nat \<Rightarrow> fault + (addr option \<times> addr option \<times> nat)" where
  "plus_body s nxt rhs =
     (case load s nxt of
        Inl e \<Rightarrow> Inl e
      | Inr cur \<Rightarrow>
          (let nxt1 = node_right cur in
           case load s nxt1 of
             Inl e \<Rightarrow> Inl e
           | Inr nn \<Rightarrow>
               (let lft = node_left nn in
                if lft \<noteq> None then
                  (case load s lft of
                     Inl e \<Rightarrow> Inl e
                   | Inr ln \<Rightarrow>
                       if rhs < node_n ln then Inr (lft, lft, rhs)
                       else Inr (nxt1, lft, rhs - node_n ln))
                else Inr (nxt1, lft, rhs))))"

partial_function (option) plus_loop ::
  "('k, 'v) store \<Rightarrow> addr option \<Rightarrow> nat \<Rightarrow> (fault + addr option) option" where
  "plus_loop s nxt rhs =
     (case plus_body s nxt rhs of
        Inl e \<Rightarrow> Some (Inl e)
      | Inr (nxt', lft, rhs') \<Rightarrow>
          if rhs' \<noteq> 0 \<or> nxt' = lft then plus_loop s nxt' rhs' else Some (Inr nxt))"

definition node_plus ::
  "('k, 'v) store \<Rightarrow> addr option \<Rightarrow> nat \<Rightarrow> (fault + addr option) option" where
  "node_plus s this rhs = plus_loop s this rhs"

text \<open>
  \<^verbatim>\<open>node& operator[](size_t idx) { return *(this + idx); }\<close>. Here \<^verbatim>\<open>this\<close> is a
  \<^verbatim>\<open>node*\<close>, so \<^verbatim>\<open>this + idx\<close> is the built-in addition of a pointer and an integer,
  not \<^verbatim>\<open>node::operator+\<close> (whose left operand is a node). Every node is an object of
  its own, so the only offset at which the sum still points at a node is 0: offset 1
  is the address one past the node, which may not be dereferenced, and larger offsets
  are undefined. Both are the fault \<open>OutOfObject\<close>.
\<close>

definition ptr_add :: "addr option \<Rightarrow> nat \<Rightarrow> fault + addr option" where
  "ptr_add p i = (if i = 0 then Inr p else Inl OutOfObject)"

definition ptr_index :: "('k, 'v) store \<Rightarrow> addr option \<Rightarrow> nat \<Rightarrow> fault + ('k, 'v) node" where
  "ptr_index s p i = (case ptr_add p i of Inl e \<Rightarrow> Inl e | Inr q \<Rightarrow> load s q)"

definition node_index :: "('k, 'v) store \<Rightarrow> addr option \<Rightarrow> nat \<Rightarrow> fault + ('k, 'v) node" where
  "node_index s this idx = ptr_index s this idx"

section \<open>Iterators\<close>

text \<open>
  \<^verbatim>\<open>class iterator\<close> and \<^verbatim>\<open>class const_iterator\<close> hold the same two fields,
  \<^verbatim>\<open>size_t _index; node* _root;\<close>, and the same member functions.
  \<^verbatim>\<open>
  iterator(node* n, size_t index) : _index(index), _root(n) {}
  bool operator==(const iterator& rhs) { return _index == rhs._index; }
  bool operator!=(const iterator& rhs) { return _index != rhs._index; }
  \<close>
  The two dereferencing members are
  \<^verbatim>\<open>
  reference operator*() const { return _root[index]; }
  pointer operator->() const { return _root + index; }
  \<close>
  They have no definition here, because they have no instance: the class declares
  \<^verbatim>\<open>_index\<close> and \<^verbatim>\<open>_root\<close> and no \<^verbatim>\<open>index\<close>; \<^verbatim>\<open>_root\<close> is a \<^verbatim>\<open>node*\<close>, so the two
  expressions are the built-in pointer subscript and addition, of type \<^verbatim>\<open>node&\<close> and
  \<^verbatim>\<open>node*\<close>, which do not convert to the return types \<^verbatim>\<open>value_type&\<close> and
  \<^verbatim>\<open>pointer\<close>. A program that dereferences an iterator does not compile, so these
  members have no run to embed.
\<close>

record iterator =
  it_index :: nat
  it_root :: "addr option"

type_synonym const_iterator = iterator

definition iterator_ctor :: "addr option \<Rightarrow> nat \<Rightarrow> iterator" where
  "iterator_ctor n idx = \<lparr>it_index = idx, it_root = n\<rparr>"

definition iterator_eq :: "iterator \<Rightarrow> iterator \<Rightarrow> bool" where
  "iterator_eq lhs rhs = (it_index lhs = it_index rhs)"

definition iterator_neq :: "iterator \<Rightarrow> iterator \<Rightarrow> bool" where
  "iterator_neq lhs rhs = (it_index lhs \<noteq> it_index rhs)"

definition const_iterator_eq :: "const_iterator \<Rightarrow> const_iterator \<Rightarrow> bool" where
  "const_iterator_eq lhs rhs = (it_index lhs = it_index rhs)"

definition const_iterator_neq :: "const_iterator \<Rightarrow> const_iterator \<Rightarrow> bool" where
  "const_iterator_neq lhs rhs = (it_index lhs \<noteq> it_index rhs)"

section \<open>\<^verbatim>\<open>value_compare\<close>\<close>

text \<open>
  \<^verbatim>\<open>
  class value_compare {
      Compare comp;
      value_compare(Compare c) : comp(c) {}
      bool operator()(const value_type& x, const value_type& y) const {
          return comp(x.first, y.first);
      }
  };
  \<close>
  \<^verbatim>\<open>key_comp()\<close> and \<^verbatim>\<open>value_comp()\<close> are declared and have no body; the key
  comparison is therefore a parameter \<open>c\<close>, and a \<^verbatim>\<open>value_compare\<close> can only come from
  the one constructor. The member \<^verbatim>\<open>comp\<close> is the field \<open>vc_comp\<close>, since \<open>comp\<close> is
  the composition of functions in HOL.
\<close>

record 'k value_compare =
  vc_comp :: "'k \<Rightarrow> 'k \<Rightarrow> bool"

definition value_compare_ctor :: "('k \<Rightarrow> 'k \<Rightarrow> bool) \<Rightarrow> 'k value_compare" where
  "value_compare_ctor c = \<lparr>vc_comp = c\<rparr>"

definition value_compare_call :: "'k value_compare \<Rightarrow> 'k \<times> 'v \<Rightarrow> 'k \<times> 'v \<Rightarrow> bool" where
  "value_compare_call vc x y = vc_comp vc (fst x) (fst y)"

section \<open>The map handle\<close>

text \<open>
  The one data member of \<^verbatim>\<open>class map\<close> is \<^verbatim>\<open>node_ptr _root\<close>. The constructor
  \<^verbatim>\<open>explicit map(const Compare& comp = Compare(), const Allocator& = Allocator()){}\<close>
  leaves it null.
  \<^verbatim>\<open>
  bool empty() const noexcept { return size() == 0; }
  size_type size() const noexcept { return _root ? _root->_n : 0; }
  \<close>
\<close>

record pmap =
  map_root :: "addr option"

definition map_ctor :: pmap where
  "map_ctor = \<lparr>map_root = None\<rparr>"

definition map_size :: "('k, 'v) store \<Rightarrow> pmap \<Rightarrow> fault + nat" where
  "map_size s m =
     (if map_root m \<noteq> None then
        (case load s (map_root m) of Inl e \<Rightarrow> Inl e | Inr nd \<Rightarrow> Inr (node_n nd))
      else Inr 0)"

definition map_empty :: "('k, 'v) store \<Rightarrow> pmap \<Rightarrow> fault + bool" where
  "map_empty s m = (case map_size s m of Inl e \<Rightarrow> Inl e | Inr k \<Rightarrow> Inr (k = 0))"

section \<open>Trees in the store\<close>

text \<open>
  What a pointer stands for is the tree of nodes reachable from it. \<open>tree_at s p t\<close>
  says that following the child pointers from \<open>p\<close> in the store \<open>s\<close> reads off exactly
  the tree \<open>t\<close>, each node with its pair and its stored count.
\<close>

datatype ('k, 'v) tree = Leaf | Node "('k, 'v) tree" "'k \<times> 'v" nat "('k, 'v) tree"

fun tree_at :: "('k, 'v) store \<Rightarrow> addr option \<Rightarrow> ('k, 'v) tree \<Rightarrow> bool" where
  "tree_at s p Leaf = (p = None)"
| "tree_at s p (Node t1 kv n t2) =
     (case p of
        None \<Rightarrow> False
      | Some a \<Rightarrow>
          a < length s \<and> node_v (s ! a) = kv \<and> node_n (s ! a) = n \<and>
          tree_at s (node_l (s ! a)) t1 \<and> tree_at s (node_r (s ! a)) t2)"

fun inorder :: "('k, 'v) tree \<Rightarrow> ('k \<times> 'v) list" where
  "inorder Leaf = []"
| "inorder (Node t1 kv n t2) = inorder t1 @ kv # inorder t2"

fun stored :: "('k, 'v) tree \<Rightarrow> nat" where
  "stored Leaf = 0"
| "stored (Node t1 kv n t2) = n"

text \<open>The size invariant at every node: \<^verbatim>\<open>size == 1 + size(left) + size(right)\<close>.\<close>

fun size_inv :: "('k, 'v) tree \<Rightarrow> bool" where
  "size_inv Leaf = True"
| "size_inv (Node t1 kv n t2) = (n = 1 + stored t1 + stored t2 \<and> size_inv t1 \<and> size_inv t2)"

text \<open>The ordering invariant: the keys of the in-order traversal strictly increase.\<close>

definition bst :: "('k::linorder, 'v) tree \<Rightarrow> bool" where
  "bst t = sorted_wrt (<) (map fst (inorder t))"

section \<open>The tree engine of the specification\<close>

text \<open>
  The header declares \<^verbatim>\<open>insert\<close>, \<^verbatim>\<open>erase\<close> and \<^verbatim>\<open>find\<close> and gives them no
  body. Sections 4.2 to 4.5 of the specification say what they are to do; the
  definitions of this section follow those words, on the nodes and the store of the
  header. Every function that reads the store returns an \<open>option\<close>: \<open>None\<close> stands
  for a run that gives no result, by following a pointer to no node or by not ending.
  No definition of this section changes a node of the store: new nodes are appended.
\<close>

text \<open>
  Modelled from the spec: reading the node a child reference owns (the header has no
  accessor that checks the reference).
\<close>

definition get :: "('k, 'v) store \<Rightarrow> addr option \<Rightarrow> ('k, 'v) node option" where
  "get s p = (case p of None \<Rightarrow> None | Some a \<Rightarrow> if a < length s then Some (s ! a) else None)"

text \<open>
  Modelled from the spec: \<^verbatim>\<open>size(p)\<close>, the stored count of the subtree at \<open>p\<close>, where
  ``an absent subtree contributes 0''.
\<close>

definition sz :: "('k, 'v) store \<Rightarrow> addr option \<Rightarrow> nat option" where
  "sz s p = (case p of None \<Rightarrow> Some 0 | Some a \<Rightarrow> map_option node_n (get s p))"

text \<open>
  Modelled from the spec: construction of a node from its two subtrees, the only way to
  set a node's fields, ``recomputing size'' as \<^verbatim>\<open>1 + size(left) + size(right)\<close>. The
  children are shared by reference, the new node is appended to the store.
\<close>

definition mk ::
  "('k, 'v) store \<Rightarrow> addr option \<Rightarrow> 'k \<times> 'v \<Rightarrow> addr option \<Rightarrow> (('k, 'v) store \<times> addr option) option" where
  "mk s l kv r =
     do {
       nl \<leftarrow> sz s l;
       nr \<leftarrow> sz s r;
       Some (s @ [\<lparr>node_v = kv, node_n = 1 + nl + nr, node_l = l, node_r = r\<rparr>], Some (length s))
     }"

text \<open>
  Modelled from the spec: the weight-balance repair of section 4.5, missing from the
  header. A rebuilt node whose one side exceeds \<open>c * other + 1\<close> is repaired by ``a
  single or double rotation, chosen by comparing the two subtree sizes of the heavier
  child''. The specification leaves the constant open; the model takes \<open>c = 3\<close> and
  rotates once when the inner grandchild is less than twice the outer one.
\<close>

definition balance ::
  "('k, 'v) store \<Rightarrow> addr option \<Rightarrow> 'k \<times> 'v \<Rightarrow> addr option \<Rightarrow> (('k, 'v) store \<times> addr option) option" where
  "balance s l kv r =
     do {
       nl \<leftarrow> sz s l;
       nr \<leftarrow> sz s r;
       if 3 * nl + 1 < nr then
         do {
           rn \<leftarrow> get s r;
           nrl \<leftarrow> sz s (node_l rn);
           nrr \<leftarrow> sz s (node_r rn);
           if nrl < 2 * nrr then
             do {
               (s1, a) \<leftarrow> mk s l kv (node_l rn);
               mk s1 a (node_v rn) (node_r rn)
             }
           else
             do {
               rln \<leftarrow> get s (node_l rn);
               (s1, a) \<leftarrow> mk s l kv (node_l rln);
               (s2, b) \<leftarrow> mk s1 (node_r rln) (node_v rn) (node_r rn);
               mk s2 a (node_v rln) b
             }
         }
       else if 3 * nr + 1 < nl then
         do {
           ln \<leftarrow> get s l;
           nll \<leftarrow> sz s (node_l ln);
           nlr \<leftarrow> sz s (node_r ln);
           if nlr < 2 * nll then
             do {
               (s1, b) \<leftarrow> mk s (node_r ln) kv r;
               mk s1 (node_l ln) (node_v ln) b
             }
           else
             do {
               lrn \<leftarrow> get s (node_r ln);
               (s1, a) \<leftarrow> mk s (node_l ln) (node_v ln) (node_l lrn);
               (s2, b) \<leftarrow> mk s1 (node_r lrn) kv r;
               mk s2 a (node_v lrn) b
             }
         }
       else mk s l kv r
     }"

text \<open>
  Modelled from the spec: \<^verbatim>\<open>find(root, key)\<close> of section 4.2, declared as \<^verbatim>\<open>map::find\<close>
  without a body: the ``standard BST descent using the comparator'', which ``returns the
  associated value or a not-found signal'' (\<open>Some None\<close>).
\<close>

partial_function (option) find_at ::
  "('k::linorder, 'v) store \<Rightarrow> addr option \<Rightarrow> 'k \<Rightarrow> 'v option option" where
  "find_at s p k =
     (if p = None then Some None
      else
        do {
          nd \<leftarrow> get s p;
          if k < fst (node_v nd) then find_at s (node_l nd) k
          else if fst (node_v nd) < k then find_at s (node_r nd) k
          else Some (Some (snd (node_v nd)))
        })"

text \<open>
  Modelled from the spec: \<^verbatim>\<open>rank_select(root, i)\<close> of section 4.2, the descent the
  specification sets against the header's \<^verbatim>\<open>node::operator+\<close>: ``let
  \<^verbatim>\<open>ls = size(root.left)\<close>; if \<^verbatim>\<open>i < ls\<close> recurse into \<^verbatim>\<open>left\<close> with the same
  \<^verbatim>\<open>i\<close>; if \<^verbatim>\<open>i == ls\<close> return \<^verbatim>\<open>root\<close>; otherwise recurse into \<^verbatim>\<open>right\<close> with
  \<^verbatim>\<open>i - ls - 1\<close>''.
\<close>

partial_function (option) rank_select ::
  "('k, 'v) store \<Rightarrow> addr option \<Rightarrow> nat \<Rightarrow> addr option option" where
  "rank_select s root i =
     do {
       nd \<leftarrow> get s root;
       ls \<leftarrow> sz s (node_l nd);
       if i < ls then rank_select s (node_l nd) i
       else if i = ls then Some root
       else rank_select s (node_r nd) (i - ls - 1)
     }"

text \<open>
  Modelled from the spec: \<^verbatim>\<open>insert(root, key, value)\<close> of section 4.3, declared as
  \<^verbatim>\<open>map::insert\<close> without a body. It descends as \<open>find_at\<close> does, constructs a new leaf
  where the key is absent, rebuilds every ancestor on the search path with the
  untouched child shared, and repairs the balance at every rebuilt level. A key already
  present is rejected: the unmodified root comes back with the flag \<open>False\<close>.
\<close>

partial_function (option) insert_at ::
  "('k::linorder, 'v) store \<Rightarrow> addr option \<Rightarrow> 'k \<Rightarrow> 'v \<Rightarrow>
     (('k, 'v) store \<times> addr option \<times> bool) option" where
  "insert_at s p k x =
     (if p = None then
        do {
          (s1, q) \<leftarrow> mk s None (k, x) None;
          Some (s1, q, True)
        }
      else
        do {
          nd \<leftarrow> get s p;
          if k < fst (node_v nd) then
            do {
              (s1, l', added) \<leftarrow> insert_at s (node_l nd) k x;
              if added then
                do {
                  (s2, q) \<leftarrow> balance s1 l' (node_v nd) (node_r nd);
                  Some (s2, q, True)
                }
              else Some (s1, p, False)
            }
          else if fst (node_v nd) < k then
            do {
              (s1, r', added) \<leftarrow> insert_at s (node_r nd) k x;
              if added then
                do {
                  (s2, q) \<leftarrow> balance s1 (node_l nd) (node_v nd) r';
                  Some (s2, q, True)
                }
              else Some (s1, p, False)
            }
          else Some (s, p, False)
        })"

text \<open>
  Modelled from the spec: the in-order successor that section 4.4 promotes, the
  leftmost pair of the right subtree.
\<close>

partial_function (option) min_at ::
  "('k, 'v) store \<Rightarrow> addr option \<Rightarrow> ('k \<times> 'v) option" where
  "min_at s p =
     do {
       nd \<leftarrow> get s p;
       if node_l nd = None then Some (node_v nd) else min_at s (node_l nd)
     }"

text \<open>
  Modelled from the spec: \<^verbatim>\<open>erase(root, key)\<close> of section 4.4, declared as
  \<^verbatim>\<open>map::erase\<close> without a body. A node with at most one child is spliced out by
  promoting that child; a node with two children gets its in-order successor in its
  place, and the successor is erased from the subtree it came from. The path is rebuilt
  and repaired as for insertion; an absent key gives back the unchanged root and the
  flag \<open>False\<close>.
\<close>

partial_function (option) erase_at ::
  "('k::linorder, 'v) store \<Rightarrow> addr option \<Rightarrow> 'k \<Rightarrow>
     (('k, 'v) store \<times> addr option \<times> bool) option" where
  "erase_at s p k =
     (if p = None then Some (s, p, False)
      else
        do {
          nd \<leftarrow> get s p;
          if k < fst (node_v nd) then
            do {
              (s1, l', found) \<leftarrow> erase_at s (node_l nd) k;
              if found then
                do {
                  (s2, q) \<leftarrow> balance s1 l' (node_v nd) (node_r nd);
                  Some (s2, q, True)
                }
              else Some (s1, p, False)
            }
          else if fst (node_v nd) < k then
            do {
              (s1, r', found) \<leftarrow> erase_at s (node_r nd) k;
              if found then
                do {
                  (s2, q) \<leftarrow> balance s1 (node_l nd) (node_v nd) r';
                  Some (s2, q, True)
                }
              else Some (s1, p, False)
            }
          else if node_l nd = None then Some (s, node_r nd, True)
          else if node_r nd = None then Some (s, node_l nd, True)
          else
            do {
              m \<leftarrow> min_at s (node_r nd);
              (s1, r', found) \<leftarrow> erase_at s (node_r nd) (fst m);
              (s2, q) \<leftarrow> balance s1 (node_l nd) m r';
              Some (s2, q, True)
            }
        })"

text \<open>
  Modelled from the spec: the in-order traversal of a version, the ``in-order sequence
  of (key, value) pairs'' that the specification's properties speak of.
\<close>

partial_function (option) inorder_at ::
  "('k, 'v) store \<Rightarrow> addr option \<Rightarrow> ('k \<times> 'v) list option" where
  "inorder_at s p =
     (if p = None then Some []
      else
        do {
          nd \<leftarrow> get s p;
          xs \<leftarrow> inorder_at s (node_l nd);
          ys \<leftarrow> inorder_at s (node_r nd);
          Some (xs @ node_v nd # ys)
        })"

text \<open>
  Modelled from the spec: \<^verbatim>\<open>insert\<close> on a map handle (section 4.7), declared in the
  header without a body. It delegates to the tree engine and wraps the new root into a
  new handle, returned with the flag that tells whether a key was added. The handle is
  the header's: its one member is the root.
\<close>

definition map_insert ::
  "('k::linorder, 'v) store \<Rightarrow> pmap \<Rightarrow> 'k \<Rightarrow> 'v \<Rightarrow> (('k, 'v) store \<times> pmap \<times> bool) option" where
  "map_insert s m k x =
     do {
       (s', q, added) \<leftarrow> insert_at s (map_root m) k x;
       Some (s', \<lparr>map_root = q\<rparr>, added)
     }"

text \<open>
  Modelled from the spec: \<^verbatim>\<open>erase(key)\<close> on a map handle, declared in the header
  without a body; it returns the new handle and the flag that tells whether the key was
  found.
\<close>

definition map_erase ::
  "('k::linorder, 'v) store \<Rightarrow> pmap \<Rightarrow> 'k \<Rightarrow> (('k, 'v) store \<times> pmap \<times> bool) option" where
  "map_erase s m k =
     do {
       (s', q, found) \<leftarrow> erase_at s (map_root m) k;
       Some (s', \<lparr>map_root = q\<rparr>, found)
     }"

text \<open>
  Modelled from the spec: \<^verbatim>\<open>find\<close> on a map handle, declared in the header without a
  body.
\<close>

definition map_find :: "('k::linorder, 'v) store \<Rightarrow> pmap \<Rightarrow> 'k \<Rightarrow> 'v option option" where
  "map_find s m k = find_at s (map_root m) k"

text \<open>
  Modelled from the spec: the in-order sequence of a handle, which the header has no
  function for.
\<close>

definition map_inorder :: "('k, 'v) store \<Rightarrow> pmap \<Rightarrow> ('k \<times> 'v) list option" where
  "map_inorder s m = inorder_at s (map_root m)"

text \<open>
  Modelled from the spec: the two mutating operations of a handle that the persistence
  property names, insertion and erasure by key.
\<close>

datatype ('k, 'v) mutation = Insert 'k 'v | Erase 'k

text \<open>
  Modelled from the spec: one mutation of a handle; it returns the store and the new
  handle.
\<close>

definition mutate ::
  "('k::linorder, 'v) store \<Rightarrow> pmap \<Rightarrow> ('k, 'v) mutation \<Rightarrow> (('k, 'v) store \<times> pmap) option" where
  "mutate s m mu =
     (case mu of
        Insert k x \<Rightarrow> do { (s', m', added) \<leftarrow> map_insert s m k x; Some (s', m') }
      | Erase k \<Rightarrow> do { (s', m', found) \<leftarrow> map_erase s m k; Some (s', m') })"

text \<open>
  Modelled from the spec: ``any further operation''. A session is a run of mutations,
  each applied to one of the handles made so far, named by its position among them; the
  handle it returns joins them. A step that names no handle is skipped.
\<close>

fun session ::
  "('k::linorder, 'v) store \<Rightarrow> pmap list \<Rightarrow> (nat \<times> ('k, 'v) mutation) list \<Rightarrow>
     (('k, 'v) store \<times> pmap list) option" where
  "session s hs [] = Some (s, hs)"
| "session s hs ((i, mu) # steps) =
     (if i < length hs then
        do {
          (s', h) \<leftarrow> mutate s (hs ! i) mu;
          session s' (hs @ [h]) steps
        }
      else session s hs steps)"

text \<open>
  A handle is valid in a store when its root stands for a tree there that satisfies the
  size and the ordering invariant.
\<close>

definition valid :: "('k::linorder, 'v) store \<Rightarrow> pmap \<Rightarrow> bool" where
  "valid s h = (\<exists>t. tree_at s (map_root h) t \<and> size_inv t \<and> bst t)"

section \<open>Sorted association lists\<close>

text \<open>
  The in-order sequences that insertion and erasure are measured against: insertion of
  a pair into a list with strictly increasing keys, which leaves a list that already
  has the key as it is, and removal of the pair with a given key.
\<close>

fun ins_list :: "'k::linorder \<Rightarrow> 'v \<Rightarrow> ('k \<times> 'v) list \<Rightarrow> ('k \<times> 'v) list" where
  "ins_list k x [] = [(k, x)]"
| "ins_list k x (ab # xs) =
     (if k < fst ab then (k, x) # ab # xs
      else if fst ab < k then ab # ins_list k x xs
      else ab # xs)"

fun del_list :: "'k::linorder \<Rightarrow> ('k \<times> 'v) list \<Rightarrow> ('k \<times> 'v) list" where
  "del_list k [] = []"
| "del_list k (ab # xs) =
     (if k < fst ab then ab # xs
      else if fst ab < k then ab # del_list k xs
      else xs)"

section \<open>Three small stores\<close>

text \<open>A single node holding \<open>(1, 10)\<close> with count 1.\<close>

definition store1 :: "(nat, nat) store" where
  "store1 = [\<lparr>node_v = (1, 10), node_n = 1, node_l = None, node_r = None\<rparr>]"

definition tree1 :: "(nat, nat) tree" where
  "tree1 = Node Leaf (1, 10) 1 Leaf"

text \<open>The root \<open>(2, 20)\<close> at address 1 with the left child \<open>(1, 10)\<close> at address 0.\<close>

definition store2 :: "(nat, nat) store" where
  "store2 =
     [\<lparr>node_v = (1, 10), node_n = 1, node_l = None, node_r = None\<rparr>,
      \<lparr>node_v = (2, 20), node_n = 2, node_l = Some 0, node_r = None\<rparr>]"

definition tree2 :: "(nat, nat) tree" where
  "tree2 = Node (Node Leaf (1, 10) 1 Leaf) (2, 20) 2 Leaf"

text \<open>The root \<open>(2, 20)\<close> at address 2 with children \<open>(1, 10)\<close> and \<open>(3, 30)\<close>.\<close>

definition store3 :: "(nat, nat) store" where
  "store3 =
     [\<lparr>node_v = (1, 10), node_n = 1, node_l = None, node_r = None\<rparr>,
      \<lparr>node_v = (3, 30), node_n = 1, node_l = None, node_r = None\<rparr>,
      \<lparr>node_v = (2, 20), node_n = 3, node_l = Some 0, node_r = Some 1\<rparr>]"

definition tree3 :: "(nat, nat) tree" where
  "tree3 = Node (Node Leaf (1, 10) 1 Leaf) (2, 20) 3 (Node Leaf (3, 30) 1 Leaf)"

section \<open>Facts about the header's code\<close>

lemma load_simps:
  "load s None = Inl NullDeref"
  "a < length s \<Longrightarrow> load s (Some a) = Inr (s ! a)"
  "\<not> a < length s \<Longrightarrow> load s (Some a) = Inl WildPointer"
  by (simp_all add: load_def)

text \<open>
  The descent stops in a null dereference whenever the node it starts from has no right
  child: \<^verbatim>\<open>next = next->right()\<close> makes \<^verbatim>\<open>next\<close> null and \<^verbatim>\<open>next->left()\<close> follows it.
\<close>

lemma plus_body_no_right:
  assumes "load s p = Inr nd" and "node_r nd = None"
  shows "plus_body s p i = Inl NullDeref"
  using assms by (simp add: plus_body_def node_right_def load_def)

lemma node_plus_no_right:
  assumes "load s p = Inr nd" and "node_r nd = None"
  shows "node_plus s p i = Some (Inl NullDeref)"
  unfolding node_plus_def
  by (subst plus_loop.simps) (simp add: plus_body_no_right [OF assms])

text \<open>
  On a tree the descent always stops: every pass of the loop moves \<^verbatim>\<open>next\<close> to a child
  or a grandchild of the node it started from. It stops either with a pointer or in a
  fault.
\<close>

lemma plus_loop_returns:
  "tree_at s p t \<Longrightarrow> \<exists>res. plus_loop s p i = Some res"
proof (induction "size t" arbitrary: t p i rule: less_induct)
  case less
  show ?case
  proof (cases t)
    case Leaf
    with less.prems have "p = None" by simp
    then show ?thesis
      by (subst plus_loop.simps) (simp add: plus_body_def load_def)
  next
    case (Node t1 kv n t2)
    with less.prems obtain a where a: "p = Some a" "a < length s"
        "tree_at s (node_r (s ! a)) t2"
      by (auto split: option.splits)
    have ih2: "\<exists>res. plus_loop s (node_r (s ! a)) j = Some res" for j
      using less.hyps [of t2 "node_r (s ! a)" j] a(3) Node by simp
    show ?thesis
    proof (cases t2)
      case Leaf
      with a(3) have "node_r (s ! a) = None" by simp
      with a(1,2) show ?thesis
        by (subst plus_loop.simps) (simp add: plus_body_def load_def node_right_def)
    next
      case t2: (Node t21 kv2 n2 t22)
      with a(3) obtain b where b: "node_r (s ! a) = Some b" "b < length s"
          "tree_at s (node_l (s ! b)) t21"
        by (auto split: option.splits)
      have ih21: "\<exists>res. plus_loop s (node_l (s ! b)) j = Some res" for j
        using less.hyps [of t21 "node_l (s ! b)" j] b(3) Node t2 by simp
      show ?thesis
      proof (cases "node_l (s ! b)")
        case None
        with a(1,2) b(1,2) ih2 [of i] show ?thesis
          by (subst plus_loop.simps)
             (auto simp: plus_body_def load_def node_right_def node_left_def)
      next
        case (Some c)
        with b(3) have "c < length s" by (cases t21) (auto split: option.splits)
        with Some a(1,2) b(1,2) ih2 [of "i - node_n (s ! c)"] ih21 [of i] show ?thesis
          by (subst plus_loop.simps)
             (auto simp: plus_body_def load_def node_right_def node_left_def Let_def)
      qed
    qed
  qed
qed

text \<open>
  On the two-node tree of \<open>store2\<close> the header has no path to the pair at position 0,
  the left child: the descent from the root with index 0 stops in a null dereference,
  and the subscript of the root at 0 is the root.
\<close>

lemma descent_on_store2:
  "tree_at store2 (Some 1) tree2 \<and> size_inv tree2 \<and> bst tree2 \<and> stored tree2 = 2 \<and>
   inorder tree2 ! 0 = (1, 10) \<and> node_v (store2 ! 0) = (1, 10) \<and>
   node_plus store2 (Some 1) 0 = Some (Inl NullDeref) \<and>
   node_index store2 (Some 1) 0 = Inr (store2 ! 1) \<and> node_v (store2 ! 1) = (2, 20)"
  by (simp add: store2_def tree2_def bst_def node_index_def ptr_index_def ptr_add_def
      node_plus_def plus_loop.simps plus_body_def load_def node_left_def node_right_def)

section \<open>Facts about the tree engine\<close>

text \<open>
  A tree read from the store is still there, unchanged, in every store that extends it.
\<close>

lemma tree_at_append: "tree_at s p t \<Longrightarrow> tree_at (s @ s') p t"
  by (induction t arbitrary: p) (auto simp: nth_append split: option.splits)

lemma tree_at_prefix: "prefix s s' \<Longrightarrow> tree_at s p t \<Longrightarrow> tree_at s' p t"
  by (auto simp: prefix_def tree_at_append)

lemma tree_at_sz: "tree_at s p t \<Longrightarrow> sz s p = Some (stored t)"
  by (cases t) (auto simp: sz_def get_def split: option.splits)

lemma tree_at_get:
  assumes "tree_at s p (Node t1 kv n t2)"
  shows "\<exists>nd. get s p = Some nd \<and> p \<noteq> None \<and> node_v nd = kv \<and> node_n nd = n \<and>
              tree_at s (node_l nd) t1 \<and> tree_at s (node_r nd) t2"
  using assms by (auto simp: get_def split: option.splits)

lemma tree_at_null_iff: "tree_at s p t \<Longrightarrow> (p = None) = (t = Leaf)"
  by (cases t) (auto split: option.splits)

lemma size_inv_stored: "size_inv t \<Longrightarrow> stored t = length (inorder t)"
  by (induction t) auto

lemma mk_tree:
  assumes "tree_at s l t1" and "tree_at s r t2"
  shows "\<exists>s' q. mk s l kv r = Some (s', q) \<and> prefix s s' \<and>
                 tree_at s' q (Node t1 kv (1 + stored t1 + stored t2) t2)"
  using assms by (simp add: mk_def tree_at_sz tree_at_append)

lemma bst_Node:
  "bst (Node t1 kv n t2) =
     (bst t1 \<and> bst t2 \<and> (\<forall>a \<in> fst ` set (inorder t1). a < fst kv) \<and>
      (\<forall>a \<in> fst ` set (inorder t2). fst kv < a))"
  unfolding bst_def by (simp add: sorted_wrt_append) (fastforce dest: less_trans)


lemma mk_treeE:
  assumes "tree_at s l t1" and "tree_at s r t2"
  obtains s' q where "mk s l kv r = Some (s', q)" and "prefix s s'"
    and "tree_at s' q (Node t1 kv (1 + stored t1 + stored t2) t2)"
  using mk_tree [OF assms] by blast

lemma rot_single_left:
  assumes l: "tree_at s l t1" and a: "tree_at s pa ta" and b: "tree_at s pb tb"
  shows "\<exists>s' q t'. (do { (s1, c) \<leftarrow> mk s l kv pa; mk s1 c kv2 pb }) = Some (s', q) \<and>
           prefix s s' \<and> tree_at s' q t' \<and>
           (size_inv t1 \<and> size_inv ta \<and> size_inv tb \<longrightarrow> size_inv t') \<and>
           inorder t' = inorder t1 @ kv # inorder ta @ kv2 # inorder tb"
proof -
  obtain s1 c where m1: "mk s l kv pa = Some (s1, c)" "prefix s s1"
      "tree_at s1 c (Node t1 kv (1 + stored t1 + stored ta) ta)"
    using mk_treeE [OF l a] by blast
  have b1: "tree_at s1 pb tb" using tree_at_prefix [OF m1(2) b] .
  obtain s2 q where m2: "mk s1 c kv2 pb = Some (s2, q)" "prefix s1 s2"
      "tree_at s2 q (Node (Node t1 kv (1 + stored t1 + stored ta) ta) kv2
         (1 + stored (Node t1 kv (1 + stored t1 + stored ta) ta) + stored tb) tb)"
    using mk_treeE [OF m1(3) b1] by blast
  have "prefix s s2" using m1(2) m2(2) by (rule prefix_order.trans)
  with m1(1) m2 show ?thesis
    by (intro exI [of _ s2] exI [of _ q]
        exI [of _ "Node (Node t1 kv (1 + stored t1 + stored ta) ta) kv2
         (1 + stored (Node t1 kv (1 + stored t1 + stored ta) ta) + stored tb) tb"]) simp
qed

lemma rot_single_right:
  assumes a: "tree_at s pa ta" and b: "tree_at s pb tb" and r: "tree_at s r t2"
  shows "\<exists>s' q t'. (do { (s1, c) \<leftarrow> mk s pb kv r; mk s1 pa kv1 c }) = Some (s', q) \<and>
           prefix s s' \<and> tree_at s' q t' \<and>
           (size_inv ta \<and> size_inv tb \<and> size_inv t2 \<longrightarrow> size_inv t') \<and>
           inorder t' = inorder ta @ kv1 # inorder tb @ kv # inorder t2"
proof -
  obtain s1 c where m1: "mk s pb kv r = Some (s1, c)" "prefix s s1"
      "tree_at s1 c (Node tb kv (1 + stored tb + stored t2) t2)"
    using mk_treeE [OF b r] by blast
  have a1: "tree_at s1 pa ta" using tree_at_prefix [OF m1(2) a] .
  obtain s2 q where m2: "mk s1 pa kv1 c = Some (s2, q)" "prefix s1 s2"
      "tree_at s2 q (Node ta kv1
         (1 + stored ta + stored (Node tb kv (1 + stored tb + stored t2) t2))
         (Node tb kv (1 + stored tb + stored t2) t2))"
    using mk_treeE [OF a1 m1(3)] by blast
  have "prefix s s2" using m1(2) m2(2) by (rule prefix_order.trans)
  with m1(1) m2 show ?thesis
    by (intro exI [of _ s2] exI [of _ q]
        exI [of _ "Node ta kv1
         (1 + stored ta + stored (Node tb kv (1 + stored tb + stored t2) t2))
         (Node tb kv (1 + stored tb + stored t2) t2)"]) simp
qed

lemma rot_double:
  assumes a: "tree_at s pa ta" and b: "tree_at s pb tb" and c: "tree_at s pc tc"
    and d: "tree_at s pd td"
  shows "\<exists>s' q t'.
           (do { (s1, x) \<leftarrow> mk s pa kv1 pb; (s2, y) \<leftarrow> mk s1 pc kv3 pd; mk s2 x kv2 y })
             = Some (s', q) \<and>
           prefix s s' \<and> tree_at s' q t' \<and>
           (size_inv ta \<and> size_inv tb \<and> size_inv tc \<and> size_inv td \<longrightarrow> size_inv t') \<and>
           inorder t' = inorder ta @ kv1 # inorder tb @ kv2 # inorder tc @ kv3 # inorder td"
proof -
  let ?L = "Node ta kv1 (1 + stored ta + stored tb) tb"
  let ?R = "Node tc kv3 (1 + stored tc + stored td) td"
  obtain s1 x where m1: "mk s pa kv1 pb = Some (s1, x)" "prefix s s1" "tree_at s1 x ?L"
    using mk_treeE [OF a b] by blast
  have c1: "tree_at s1 pc tc" and d1: "tree_at s1 pd td"
    using tree_at_prefix [OF m1(2)] c d by blast+
  obtain s2 y where m2: "mk s1 pc kv3 pd = Some (s2, y)" "prefix s1 s2" "tree_at s2 y ?R"
    using mk_treeE [OF c1 d1] by blast
  have x2: "tree_at s2 x ?L" using tree_at_prefix [OF m2(2) m1(3)] .
  obtain s3 q where m3: "mk s2 x kv2 y = Some (s3, q)" "prefix s2 s3"
      "tree_at s3 q (Node ?L kv2 (1 + stored ?L + stored ?R) ?R)"
    using mk_treeE [OF x2 m2(3)] by blast
  have "prefix s s3" using m1(2) m2(2) m3(2) by (meson prefix_order.trans)
  with m1(1) m2(1) m3 show ?thesis
    by (intro exI [of _ s3] exI [of _ q]
        exI [of _ "Node ?L kv2 (1 + stored ?L + stored ?R) ?R"]) simp
qed


lemma balance_tree:
  assumes l: "tree_at s l t1" and r: "tree_at s r t2"
    and i1: "size_inv t1" and i2: "size_inv t2"
  shows "\<exists>s' q t'. balance s l kv r = Some (s', q) \<and> prefix s s' \<and> tree_at s' q t' \<and>
           size_inv t' \<and> inorder t' = inorder t1 @ kv # inorder t2"
proof -
  have szl: "sz s l = Some (stored t1)" and szr: "sz s r = Some (stored t2)"
    using l r by (simp_all add: tree_at_sz)
  consider (right_heavy) "3 * stored t1 + 1 < stored t2"
    | (left_heavy) "\<not> 3 * stored t1 + 1 < stored t2" "3 * stored t2 + 1 < stored t1"
    | (balanced) "\<not> 3 * stored t1 + 1 < stored t2" "\<not> 3 * stored t2 + 1 < stored t1"
    by blast
  then show ?thesis
  proof cases
    case balanced
    obtain s' q where m: "mk s l kv r = Some (s', q)" "prefix s s'"
        "tree_at s' q (Node t1 kv (1 + stored t1 + stored t2) t2)"
      using mk_treeE [OF l r] by blast
    have "balance s l kv r = Some (s', q)"
      using balanced m(1) by (simp add: balance_def szl szr)
    with m i1 i2 show ?thesis
      by (intro exI [of _ s'] exI [of _ q]
          exI [of _ "Node t1 kv (1 + stored t1 + stored t2) t2"]) simp
  next
    case right_heavy
    then obtain a kv2 n2 b where t2: "t2 = Node a kv2 n2 b"
      by (cases t2) auto
    obtain rn where rn: "get s r = Some rn" "node_v rn = kv2"
        "tree_at s (node_l rn) a" "tree_at s (node_r rn) b"
      using tree_at_get r t2 by blast
    have sza: "sz s (node_l rn) = Some (stored a)" and szb: "sz s (node_r rn) = Some (stored b)"
      using rn by (simp_all add: tree_at_sz)
    have ia: "size_inv a" and ib: "size_inv b" using i2 t2 by simp_all
    show ?thesis
    proof (cases "stored a < 2 * stored b")
      case True
      obtain s' q t' where
        "(do { (s1, c) \<leftarrow> mk s l kv (node_l rn); mk s1 c kv2 (node_r rn) }) = Some (s', q)"
        "prefix s s'" "tree_at s' q t'" "size_inv t'"
        "inorder t' = inorder t1 @ kv # inorder a @ kv2 # inorder b"
        using rot_single_left [OF l rn(3) rn(4), of kv kv2] i1 ia ib by blast
      moreover from this(1) have "balance s l kv r = Some (s', q)"
        using right_heavy True by (simp add: balance_def szl szr rn sza szb)
      ultimately show ?thesis using t2 by auto
    next
      case False
      have "a \<noteq> Leaf"
      proof
        assume "a = Leaf"
        with False have "stored b = 0" by simp
        with \<open>a = Leaf\<close> i2 t2 have "stored t2 = 1" by simp
        with right_heavy show False by simp
      qed
      then obtain a1 kva na a2 where a: "a = Node a1 kva na a2" by (cases a) auto
      obtain rln where rln: "get s (node_l rn) = Some rln" "node_v rln = kva"
          "tree_at s (node_l rln) a1" "tree_at s (node_r rln) a2"
        using tree_at_get rn(3) a by blast
      have ia1: "size_inv a1" and ia2: "size_inv a2" using ia a by simp_all
      obtain s' q t' where
        "(do { (s1, x) \<leftarrow> mk s l kv (node_l rln);
               (s2, y) \<leftarrow> mk s1 (node_r rln) kv2 (node_r rn);
               mk s2 x kva y }) = Some (s', q)"
        "prefix s s'" "tree_at s' q t'" "size_inv t'"
        "inorder t' = inorder t1 @ kv # inorder a1 @ kva # inorder a2 @ kv2 # inorder b"
        using rot_double [OF l rln(3) rln(4) rn(4), of kv kv2 kva] i1 ia1 ia2 ib by blast
      moreover from this(1) have "balance s l kv r = Some (s', q)"
        using right_heavy False by (simp add: balance_def szl szr rn sza szb rln)
      ultimately show ?thesis using t2 a by auto
    qed
  next
    case left_heavy
    then obtain a kv1 n1 b where t1: "t1 = Node a kv1 n1 b"
      by (cases t1) auto
    obtain ln where ln: "get s l = Some ln" "node_v ln = kv1"
        "tree_at s (node_l ln) a" "tree_at s (node_r ln) b"
      using tree_at_get l t1 by blast
    have sza: "sz s (node_l ln) = Some (stored a)" and szb: "sz s (node_r ln) = Some (stored b)"
      using ln by (simp_all add: tree_at_sz)
    have ia: "size_inv a" and ib: "size_inv b" using i1 t1 by simp_all
    show ?thesis
    proof (cases "stored b < 2 * stored a")
      case True
      obtain s' q t' where
        "(do { (s1, c) \<leftarrow> mk s (node_r ln) kv r; mk s1 (node_l ln) kv1 c }) = Some (s', q)"
        "prefix s s'" "tree_at s' q t'" "size_inv t'"
        "inorder t' = inorder a @ kv1 # inorder b @ kv # inorder t2"
        using rot_single_right [OF ln(3) ln(4) r, of kv kv1] ia ib i2 by blast
      moreover from this(1) have "balance s l kv r = Some (s', q)"
        using left_heavy True by (simp add: balance_def szl szr ln sza szb)
      ultimately show ?thesis using t1 by auto
    next
      case False
      have "b \<noteq> Leaf"
      proof
        assume "b = Leaf"
        with False have "stored a = 0" by simp
        with \<open>b = Leaf\<close> i1 t1 have "stored t1 = 1" by simp
        with left_heavy show False by simp
      qed
      then obtain b1 kvb nb b2 where b: "b = Node b1 kvb nb b2" by (cases b) auto
      obtain lrn where lrn: "get s (node_r ln) = Some lrn" "node_v lrn = kvb"
          "tree_at s (node_l lrn) b1" "tree_at s (node_r lrn) b2"
        using tree_at_get ln(4) b by blast
      have ib1: "size_inv b1" and ib2: "size_inv b2" using ib b by simp_all
      obtain s' q t' where
        "(do { (s1, x) \<leftarrow> mk s (node_l ln) kv1 (node_l lrn);
               (s2, y) \<leftarrow> mk s1 (node_r lrn) kv r;
               mk s2 x kvb y }) = Some (s', q)"
        "prefix s s'" "tree_at s' q t'" "size_inv t'"
        "inorder t' = inorder a @ kv1 # inorder b1 @ kvb # inorder b2 @ kv # inorder t2"
        using rot_double [OF ln(3) lrn(3) lrn(4) r, of kv1 kv kvb] ia ib1 ib2 i2 by blast
      moreover from this(1) have "balance s l kv r = Some (s', q)"
        using left_heavy False by (simp add: balance_def szl szr ln sza szb lrn)
      ultimately show ?thesis using t1 b by auto
    qed
  qed
qed


lemma ins_list_left:
  "k < fst ab \<Longrightarrow> ins_list k x (xs @ ab # ys) = ins_list k x xs @ ab # ys"
  by (induction xs) auto

lemma ins_list_right:
  "\<forall>a \<in> fst ` set xs. a < fst ab \<Longrightarrow> fst ab < k \<Longrightarrow>
   ins_list k x (xs @ ab # ys) = xs @ ab # ins_list k x ys"
  by (induction xs) auto

lemma ins_list_here:
  "\<forall>a \<in> fst ` set xs. a < fst ab \<Longrightarrow> \<not> k < fst ab \<Longrightarrow> \<not> fst ab < k \<Longrightarrow>
   ins_list k x (xs @ ab # ys) = xs @ ab # ys"
  by (induction xs) auto

lemma ins_list_present:
  "sorted_wrt (<) (map fst xs) \<Longrightarrow> k \<in> fst ` set xs \<Longrightarrow> ins_list k x xs = xs"
  by (induction xs) auto

lemma set_ins_list: "fst ` set (ins_list k x xs) = insert k (fst ` set xs)"
  by (induction xs) auto

lemma sorted_ins_list:
  "sorted_wrt (<) (map fst xs) \<Longrightarrow> sorted_wrt (<) (map fst (ins_list k x xs))"
proof (induction xs)
  case Nil
  then show ?case by simp
next
  case (Cons ab xs)
  have "\<forall>a \<in> fst ` set (ins_list k x xs). fst ab < a" if "fst ab < k"
    using that Cons.prems by (auto simp: set_ins_list)
  with Cons show ?case by auto
qed

lemma map_of_ins_list:
  "k \<notin> fst ` set xs \<Longrightarrow> map_of (ins_list k x xs) k = Some x"
  by (induction xs) auto

lemma length_ins_list:
  "k \<notin> fst ` set xs \<Longrightarrow> length (ins_list k x xs) = Suc (length xs)"
  by (induction xs) auto

lemma del_list_left:
  "k < fst ab \<Longrightarrow> del_list k (xs @ ab # ys) = del_list k xs @ ab # ys"
  by (induction xs) auto

lemma del_list_right:
  "\<forall>a \<in> fst ` set xs. a < fst ab \<Longrightarrow> fst ab < k \<Longrightarrow>
   del_list k (xs @ ab # ys) = xs @ ab # del_list k ys"
  by (induction xs) auto

lemma del_list_here:
  "\<forall>a \<in> fst ` set xs. a < fst ab \<Longrightarrow> \<not> k < fst ab \<Longrightarrow> \<not> fst ab < k \<Longrightarrow>
   del_list k (xs @ ab # ys) = xs @ ys"
  by (induction xs) auto

lemma del_list_absent: "k \<notin> fst ` set xs \<Longrightarrow> del_list k xs = xs"
  by (induction xs) auto

lemma del_list_hd: "xs \<noteq> [] \<Longrightarrow> del_list (fst (hd xs)) xs = tl xs"
  by (cases xs) auto

lemma set_del_list: "set (del_list k xs) \<subseteq> set xs"
  by (induction xs) auto

lemma sorted_del_list:
  "sorted_wrt (<) (map fst xs) \<Longrightarrow> sorted_wrt (<) (map fst (del_list k xs))"
proof (induction xs)
  case Nil
  then show ?case by simp
next
  case (Cons ab xs)
  have "\<forall>a \<in> fst ` set (del_list k xs). fst ab < a"
    using Cons.prems set_del_list [of k xs] by auto
  with Cons show ?case by auto
qed

lemma map_of_sorted_left:
  fixes k :: "'k::linorder"
  assumes "\<forall>a \<in> fst ` set ys. fst ab < a" and "k < fst ab"
  shows "map_of (xs @ ab # ys) k = map_of xs k"
proof -
  have "k \<notin> fst ` set ys" using assms by auto
  then have "map_of ys k = None" by (simp add: map_of_eq_None_iff)
  with assms(2) show ?thesis by (induction xs) auto
qed

lemma map_of_sorted_right:
  fixes k :: "'k::linorder"
  shows "\<forall>a \<in> fst ` set xs. a < fst ab \<Longrightarrow> fst ab < k \<Longrightarrow>
   map_of (xs @ ab # ys) k = map_of ys k"
  by (induction xs) auto

lemma map_of_sorted_here:
  fixes k :: "'k::linorder"
  shows "\<forall>a \<in> fst ` set xs. a < fst ab \<Longrightarrow> \<not> k < fst ab \<Longrightarrow> \<not> fst ab < k \<Longrightarrow>
   map_of (xs @ ab # ys) k = Some (snd ab)"
  by (induction xs) (auto simp: antisym_conv3)

lemma find_tree:
  assumes "tree_at s p t" and "bst t"
  shows "find_at s p k = Some (map_of (inorder t) k)"
  using assms
proof (induction t arbitrary: p)
  case Leaf
  then show ?case by (subst find_at.simps) simp
next
  case (Node t1 kv n t2)
  obtain nd where nd: "get s p = Some nd" "p \<noteq> None" "node_v nd = kv"
      "tree_at s (node_l nd) t1" "tree_at s (node_r nd) t2"
    using tree_at_get [OF Node.prems(1)] by blast
  have b: "bst t1" "bst t2" "\<forall>a \<in> fst ` set (inorder t1). a < fst kv"
      "\<forall>a \<in> fst ` set (inorder t2). fst kv < a"
    using Node.prems(2) by (simp_all add: bst_Node)
  have step: "find_at s p k =
      (if k < fst kv then find_at s (node_l nd) k
       else if fst kv < k then find_at s (node_r nd) k
       else Some (Some (snd kv)))"
    using nd(1-3) by (subst find_at.simps) auto
  have "map_of (inorder t1 @ kv # inorder t2) k =
      (if k < fst kv then map_of (inorder t1) k
       else if fst kv < k then map_of (inorder t2) k
       else Some (snd kv))"
    using map_of_sorted_left [OF b(4), of k "inorder t1"]
      map_of_sorted_right [OF b(3), of k "inorder t2"]
      map_of_sorted_here [OF b(3), of k "inorder t2"]
    by (simp del: map_of_append)
  with step Node.IH(1) [OF nd(4) b(1)] Node.IH(2) [OF nd(5) b(2)] show ?case
    by (simp del: map_of_append)
qed

lemma inorder_at_tree:
  assumes "tree_at s p t"
  shows "inorder_at s p = Some (inorder t)"
  using assms
proof (induction t arbitrary: p)
  case Leaf
  then show ?case by (subst inorder_at.simps) simp
next
  case (Node t1 kv n t2)
  obtain nd where nd: "get s p = Some nd" "p \<noteq> None" "node_v nd = kv"
      "tree_at s (node_l nd) t1" "tree_at s (node_r nd) t2"
    using tree_at_get [OF Node.prems(1)] by blast
  show ?case
    using nd(1-3) Node.IH(1) [OF nd(4)] Node.IH(2) [OF nd(5)]
    by (subst inorder_at.simps) auto
qed

lemma min_at_tree:
  assumes "tree_at s p t" and "t \<noteq> Leaf"
  shows "min_at s p = Some (hd (inorder t))"
  using assms
proof (induction t arbitrary: p)
  case Leaf
  then show ?case by simp
next
  case (Node t1 kv n t2)
  obtain nd where nd: "get s p = Some nd" "p \<noteq> None" "node_v nd = kv"
      "tree_at s (node_l nd) t1" "tree_at s (node_r nd) t2"
    using tree_at_get [OF Node.prems(1)] by blast
  have null: "(node_l nd = None) = (t1 = Leaf)" using tree_at_null_iff [OF nd(4)] .
  show ?case
  proof (cases "t1 = Leaf")
    case True
    with nd null show ?thesis by (subst min_at.simps) auto
  next
    case False
    then have "inorder t1 \<noteq> []" by (cases t1) auto
    with False nd null Node.IH(1) [OF nd(4) False] show ?thesis
      by (subst min_at.simps) auto
  qed
qed


text \<open>
  The descent of the specification is the rank query: on a tree that satisfies the size
  invariant it returns, for every index in range, the node at that position of the
  in-order traversal.
\<close>

lemma rank_select_tree:
  assumes "tree_at s p t" and "size_inv t" and "i < stored t"
  shows "\<exists>a. rank_select s p i = Some (Some a) \<and> a < length s \<and>
              node_v (s ! a) = inorder t ! i"
  using assms
proof (induction t arbitrary: p i)
  case Leaf
  then show ?case by simp
next
  case (Node t1 kv n t2)
  from Node.prems(1) obtain a where a: "p = Some a" "a < length s" "node_v (s ! a) = kv"
      "tree_at s (node_l (s ! a)) t1" "tree_at s (node_r (s ! a)) t2"
    by (auto split: option.splits)
  have g: "get s p = Some (s ! a)" using a(1,2) by (simp add: get_def)
  have ls: "sz s (node_l (s ! a)) = Some (stored t1)" using a(4) by (rule tree_at_sz)
  have i: "size_inv t1" "size_inv t2" "n = 1 + stored t1 + stored t2"
    using Node.prems(2) by simp_all
  have len: "length (inorder t1) = stored t1" using i(1) by (simp add: size_inv_stored)
  consider (left) "i < stored t1" | (here) "i = stored t1" | (right) "stored t1 < i"
    by linarith
  then show ?case
  proof cases
    case left
    obtain b where "rank_select s (node_l (s ! a)) i = Some (Some b)" "b < length s"
        "node_v (s ! b) = inorder t1 ! i"
      using Node.IH(1) [OF a(4) i(1) left] by blast
    with left g ls len show ?thesis
      by (subst rank_select.simps) (simp add: nth_append)
  next
    case here
    with g ls len a(1-3) show ?thesis
      by (subst rank_select.simps) (simp add: nth_append)
  next
    case right
    then have "i - stored t1 - 1 < stored t2" using Node.prems(3) i(3) by simp
    then obtain b where "rank_select s (node_r (s ! a)) (i - stored t1 - 1) = Some (Some b)"
        "b < length s" "node_v (s ! b) = inorder t2 ! (i - stored t1 - 1)"
      using Node.IH(2) [OF a(5) i(2)] by blast
    with right g ls len show ?thesis
      by (subst rank_select.simps) (simp add: nth_append nth_Cons')
  qed
qed

lemma insert_at_tree:
  assumes "tree_at s p t" and "size_inv t" and "bst t"
  shows "\<exists>s' q added t'. insert_at s p k x = Some (s', q, added) \<and> prefix s s' \<and>
           tree_at s' q t' \<and> size_inv t' \<and> inorder t' = ins_list k x (inorder t) \<and>
           added = (k \<notin> fst ` set (inorder t))"
  using assms
proof (induction t arbitrary: s p)
  case Leaf
  then have p: "p = None" by simp
  obtain s' q where m: "mk s None (k, x) None = Some (s', q)" "prefix s s'"
      "tree_at s' q (Node Leaf (k, x) (1 + stored Leaf + stored Leaf) Leaf)"
    using mk_treeE [of s None Leaf None Leaf "(k, x)"] by auto
  have "insert_at s p k x = Some (s', q, True)"
    using p m(1) by (subst insert_at.simps) simp
  with m(2,3) show ?case
    by (intro exI [of _ s'] exI [of _ q] exI [of _ True]
        exI [of _ "Node Leaf (k, x) (1 + stored Leaf + stored Leaf) Leaf"]) simp
next
  case (Node t1 kv n t2)
  obtain nd where nd: "get s p = Some nd" "p \<noteq> None" "node_v nd = kv"
      "tree_at s (node_l nd) t1" "tree_at s (node_r nd) t2"
    using tree_at_get [OF Node.prems(1)] by blast
  have b: "bst t1" "bst t2" "\<forall>a \<in> fst ` set (inorder t1). a < fst kv"
      "\<forall>a \<in> fst ` set (inorder t2). fst kv < a"
    using Node.prems(3) by (simp_all add: bst_Node)
  have i: "size_inv t1" "size_inv t2" using Node.prems(2) by simp_all
  consider (lt) "k < fst kv" | (gt) "\<not> k < fst kv" "fst kv < k"
    | (eq) "\<not> k < fst kv" "\<not> fst kv < k"
    by blast
  then show ?case
  proof cases
    case lt
    obtain s1 l' added t1' where r: "insert_at s (node_l nd) k x = Some (s1, l', added)"
        "prefix s s1" "tree_at s1 l' t1'" "size_inv t1'"
        "inorder t1' = ins_list k x (inorder t1)" "added = (k \<notin> fst ` set (inorder t1))"
      using Node.IH(1) [OF nd(4) i(1) b(1)] by blast
    have kin: "(k \<in> fst ` set (inorder (Node t1 kv n t2))) = (k \<in> fst ` set (inorder t1))"
      using lt b(4) by auto
    have io: "ins_list k x (inorder (Node t1 kv n t2)) = inorder t1' @ kv # inorder t2"
      using lt r(5) by (simp add: ins_list_left)
    show ?thesis
    proof (cases added)
      case True
      have r2: "tree_at s1 (node_r nd) t2" using tree_at_prefix [OF r(2) nd(5)] .
      obtain s2 q t' where bl: "balance s1 l' kv (node_r nd) = Some (s2, q)" "prefix s1 s2"
          "tree_at s2 q t'" "size_inv t'" "inorder t' = inorder t1' @ kv # inorder t2"
        using balance_tree [OF r(3) r2 r(4) i(2)] by blast
      have "insert_at s p k x = Some (s2, q, True)"
        using nd(1-3) lt r(1) True bl(1) by (subst insert_at.simps) auto
      moreover have "prefix s s2" using r(2) bl(2) by (rule prefix_order.trans)
      ultimately show ?thesis using bl(3-5) io kin r(6) True
        by (intro exI [of _ s2] exI [of _ q] exI [of _ True] exI [of _ t']) simp
    next
      case False
      have "insert_at s p k x = Some (s1, p, False)"
        using nd(1-3) lt r(1) False by (subst insert_at.simps) auto
      moreover have "tree_at s1 p (Node t1 kv n t2)"
        using tree_at_prefix [OF r(2) Node.prems(1)] .
      moreover have "ins_list k x (inorder (Node t1 kv n t2)) = inorder (Node t1 kv n t2)"
        using Node.prems(3) kin r(6) False by (intro ins_list_present) (simp_all add: bst_def)
      ultimately show ?thesis using r(2) Node.prems(2) kin r(6) False
        by (intro exI [of _ s1] exI [of _ p] exI [of _ False]
            exI [of _ "Node t1 kv n t2"]) (simp del: tree_at.simps)
    qed
  next
    case gt
    obtain s1 r' added t2' where r: "insert_at s (node_r nd) k x = Some (s1, r', added)"
        "prefix s s1" "tree_at s1 r' t2'" "size_inv t2'"
        "inorder t2' = ins_list k x (inorder t2)" "added = (k \<notin> fst ` set (inorder t2))"
      using Node.IH(2) [OF nd(5) i(2) b(2)] by blast
    have kin: "(k \<in> fst ` set (inorder (Node t1 kv n t2))) = (k \<in> fst ` set (inorder t2))"
      using gt b(3) by auto
    have io: "ins_list k x (inorder (Node t1 kv n t2)) = inorder t1 @ kv # inorder t2'"
      using gt r(5) b(3) by (simp add: ins_list_right)
    show ?thesis
    proof (cases added)
      case True
      have l2: "tree_at s1 (node_l nd) t1" using tree_at_prefix [OF r(2) nd(4)] .
      obtain s2 q t' where bl: "balance s1 (node_l nd) kv r' = Some (s2, q)" "prefix s1 s2"
          "tree_at s2 q t'" "size_inv t'" "inorder t' = inorder t1 @ kv # inorder t2'"
        using balance_tree [OF l2 r(3) i(1) r(4)] by blast
      have "insert_at s p k x = Some (s2, q, True)"
        using nd(1-3) gt r(1) True bl(1) by (subst insert_at.simps) auto
      moreover have "prefix s s2" using r(2) bl(2) by (rule prefix_order.trans)
      ultimately show ?thesis using bl(3-5) io kin r(6) True
        by (intro exI [of _ s2] exI [of _ q] exI [of _ True] exI [of _ t']) simp
    next
      case False
      have "insert_at s p k x = Some (s1, p, False)"
        using nd(1-3) gt r(1) False by (subst insert_at.simps) auto
      moreover have "tree_at s1 p (Node t1 kv n t2)"
        using tree_at_prefix [OF r(2) Node.prems(1)] .
      moreover have "ins_list k x (inorder (Node t1 kv n t2)) = inorder (Node t1 kv n t2)"
        using Node.prems(3) kin r(6) False by (intro ins_list_present) (simp_all add: bst_def)
      ultimately show ?thesis using r(2) Node.prems(2) kin r(6) False
        by (intro exI [of _ s1] exI [of _ p] exI [of _ False]
            exI [of _ "Node t1 kv n t2"]) (simp del: tree_at.simps)
    qed
  next
    case eq
    then have k: "k = fst kv" by simp
    have "insert_at s p k x = Some (s, p, False)"
      using nd(1-3) eq by (subst insert_at.simps) auto
    moreover have "ins_list k x (inorder (Node t1 kv n t2)) = inorder (Node t1 kv n t2)"
      using eq b(3) by (simp add: ins_list_here)
    ultimately show ?thesis using Node.prems(1,2) k
      by (intro exI [of _ s] exI [of _ p] exI [of _ False]
          exI [of _ "Node t1 kv n t2"]) (simp del: tree_at.simps)
  qed
qed


lemma erase_at_tree:
  assumes "tree_at s p t" and "size_inv t" and "bst t"
  shows "\<exists>s' q found t'. erase_at s p k = Some (s', q, found) \<and> prefix s s' \<and>
           tree_at s' q t' \<and> size_inv t' \<and> inorder t' = del_list k (inorder t) \<and>
           found = (k \<in> fst ` set (inorder t))"
  using assms
proof (induction t arbitrary: s p k)
  case Leaf
  then have p: "p = None" by simp
  have "erase_at s p k = Some (s, p, False)"
    using p by (subst erase_at.simps) simp
  with p show ?case
    by (intro exI [of _ s] exI [of _ p] exI [of _ False] exI [of _ Leaf]) simp
next
  case (Node t1 kv n t2)
  obtain nd where nd: "get s p = Some nd" "p \<noteq> None" "node_v nd = kv"
      "tree_at s (node_l nd) t1" "tree_at s (node_r nd) t2"
    using tree_at_get [OF Node.prems(1)] by blast
  have b: "bst t1" "bst t2" "\<forall>a \<in> fst ` set (inorder t1). a < fst kv"
      "\<forall>a \<in> fst ` set (inorder t2). fst kv < a"
    using Node.prems(3) by (simp_all add: bst_Node)
  have i: "size_inv t1" "size_inv t2" using Node.prems(2) by simp_all
  consider (lt) "k < fst kv" | (gt) "\<not> k < fst kv" "fst kv < k"
    | (eq) "\<not> k < fst kv" "\<not> fst kv < k"
    by blast
  then show ?case
  proof cases
    case lt
    obtain s1 l' found t1' where r: "erase_at s (node_l nd) k = Some (s1, l', found)"
        "prefix s s1" "tree_at s1 l' t1'" "size_inv t1'"
        "inorder t1' = del_list k (inorder t1)" "found = (k \<in> fst ` set (inorder t1))"
      using Node.IH(1) [OF nd(4) i(1) b(1)] by blast
    have kin: "(k \<in> fst ` set (inorder (Node t1 kv n t2))) = (k \<in> fst ` set (inorder t1))"
      using lt b(4) by auto
    have io: "del_list k (inorder (Node t1 kv n t2)) = inorder t1' @ kv # inorder t2"
      using lt r(5) by (simp add: del_list_left)
    show ?thesis
    proof (cases found)
      case True
      have r2: "tree_at s1 (node_r nd) t2" using tree_at_prefix [OF r(2) nd(5)] .
      obtain s2 q t' where bl: "balance s1 l' kv (node_r nd) = Some (s2, q)" "prefix s1 s2"
          "tree_at s2 q t'" "size_inv t'" "inorder t' = inorder t1' @ kv # inorder t2"
        using balance_tree [OF r(3) r2 r(4) i(2)] by blast
      have "erase_at s p k = Some (s2, q, True)"
        using nd(1-3) lt r(1) True bl(1) by (subst erase_at.simps) auto
      moreover have "prefix s s2" using r(2) bl(2) by (rule prefix_order.trans)
      ultimately show ?thesis using bl(3-5) io kin r(6) True
        by (intro exI [of _ s2] exI [of _ q] exI [of _ True] exI [of _ t']) simp
    next
      case False
      have "erase_at s p k = Some (s1, p, False)"
        using nd(1-3) lt r(1) False by (subst erase_at.simps) auto
      moreover have "tree_at s1 p (Node t1 kv n t2)"
        using tree_at_prefix [OF r(2) Node.prems(1)] .
      moreover have "del_list k (inorder (Node t1 kv n t2)) = inorder (Node t1 kv n t2)"
        using kin r(6) False by (intro del_list_absent) simp
      ultimately show ?thesis using r(2) Node.prems(2) kin r(6) False
        by (intro exI [of _ s1] exI [of _ p] exI [of _ False]
            exI [of _ "Node t1 kv n t2"]) (simp del: tree_at.simps)
    qed
  next
    case gt
    obtain s1 r' found t2' where r: "erase_at s (node_r nd) k = Some (s1, r', found)"
        "prefix s s1" "tree_at s1 r' t2'" "size_inv t2'"
        "inorder t2' = del_list k (inorder t2)" "found = (k \<in> fst ` set (inorder t2))"
      using Node.IH(2) [OF nd(5) i(2) b(2)] by blast
    have kin: "(k \<in> fst ` set (inorder (Node t1 kv n t2))) = (k \<in> fst ` set (inorder t2))"
      using gt b(3) by auto
    have io: "del_list k (inorder (Node t1 kv n t2)) = inorder t1 @ kv # inorder t2'"
      using gt r(5) b(3) by (simp add: del_list_right)
    show ?thesis
    proof (cases found)
      case True
      have l2: "tree_at s1 (node_l nd) t1" using tree_at_prefix [OF r(2) nd(4)] .
      obtain s2 q t' where bl: "balance s1 (node_l nd) kv r' = Some (s2, q)" "prefix s1 s2"
          "tree_at s2 q t'" "size_inv t'" "inorder t' = inorder t1 @ kv # inorder t2'"
        using balance_tree [OF l2 r(3) i(1) r(4)] by blast
      have "erase_at s p k = Some (s2, q, True)"
        using nd(1-3) gt r(1) True bl(1) by (subst erase_at.simps) auto
      moreover have "prefix s s2" using r(2) bl(2) by (rule prefix_order.trans)
      ultimately show ?thesis using bl(3-5) io kin r(6) True
        by (intro exI [of _ s2] exI [of _ q] exI [of _ True] exI [of _ t']) simp
    next
      case False
      have "erase_at s p k = Some (s1, p, False)"
        using nd(1-3) gt r(1) False by (subst erase_at.simps) auto
      moreover have "tree_at s1 p (Node t1 kv n t2)"
        using tree_at_prefix [OF r(2) Node.prems(1)] .
      moreover have "del_list k (inorder (Node t1 kv n t2)) = inorder (Node t1 kv n t2)"
        using kin r(6) False by (intro del_list_absent) simp
      ultimately show ?thesis using r(2) Node.prems(2) kin r(6) False
        by (intro exI [of _ s1] exI [of _ p] exI [of _ False]
            exI [of _ "Node t1 kv n t2"]) (simp del: tree_at.simps)
    qed
  next
    case eq
    then have k: "k = fst kv" by simp
    have io: "del_list k (inorder (Node t1 kv n t2)) = inorder t1 @ inorder t2"
      using eq b(3) by (simp add: del_list_here)
    have nl: "(node_l nd = None) = (t1 = Leaf)" using tree_at_null_iff [OF nd(4)] .
    have nr: "(node_r nd = None) = (t2 = Leaf)" using tree_at_null_iff [OF nd(5)] .
    consider (no_left) "t1 = Leaf" | (no_right) "t1 \<noteq> Leaf" "t2 = Leaf"
      | (both) "t1 \<noteq> Leaf" "t2 \<noteq> Leaf"
      by blast
    then show ?thesis
    proof cases
      case no_left
      have "erase_at s p k = Some (s, node_r nd, True)"
        using nd(1-3) eq nl no_left by (subst erase_at.simps) auto
      then show ?thesis using nd(5) i(2) io k no_left
        by (intro exI [of _ s] exI [of _ "node_r nd"] exI [of _ True] exI [of _ t2]) simp
    next
      case no_right
      have "erase_at s p k = Some (s, node_l nd, True)"
        using nd(1-3) eq nl nr no_right by (subst erase_at.simps) auto
      then show ?thesis using nd(4) i(1) io k no_right
        by (intro exI [of _ s] exI [of _ "node_l nd"] exI [of _ True] exI [of _ t1]) simp
    next
      case both
      have ne: "inorder t2 \<noteq> []" using both(2) by (cases t2) auto
      have m: "min_at s (node_r nd) = Some (hd (inorder t2))"
        using min_at_tree [OF nd(5) both(2)] .
      obtain s1 r' found t2' where r:
          "erase_at s (node_r nd) (fst (hd (inorder t2))) = Some (s1, r', found)"
          "prefix s s1" "tree_at s1 r' t2'" "size_inv t2'"
          "inorder t2' = del_list (fst (hd (inorder t2))) (inorder t2)"
        using Node.IH(2) [OF nd(5) i(2) b(2)] by blast
      have l2: "tree_at s1 (node_l nd) t1" using tree_at_prefix [OF r(2) nd(4)] .
      obtain s2 q t' where bl:
          "balance s1 (node_l nd) (hd (inorder t2)) r' = Some (s2, q)" "prefix s1 s2"
          "tree_at s2 q t'" "size_inv t'"
          "inorder t' = inorder t1 @ hd (inorder t2) # inorder t2'"
        using balance_tree [OF l2 r(3) i(1) r(4)] by blast
      have "erase_at s p k = Some (s2, q, True)"
        using nd(1-3) eq nl nr both m r(1) bl(1) by (subst erase_at.simps) auto
      moreover have "prefix s s2" using r(2) bl(2) by (rule prefix_order.trans)
      moreover have "inorder t' = inorder t1 @ inorder t2"
        using bl(5) r(5) ne by (simp add: del_list_hd)
      ultimately show ?thesis using bl(3,4) io k
        by (intro exI [of _ s2] exI [of _ q] exI [of _ True] exI [of _ t']) simp
    qed
  qed
qed

lemma map_size_tree: "tree_at s (map_root m) t \<Longrightarrow> map_size s m = Inr (stored t)"
  by (cases t) (auto simp: map_size_def load_def split: option.splits)

lemma mutate_valid:
  assumes "tree_at s (map_root m) t" and "size_inv t" and "bst t"
  shows "\<exists>s' m' t'. mutate s m mu = Some (s', m') \<and> prefix s s' \<and>
           tree_at s' (map_root m') t' \<and> size_inv t' \<and> bst t'"
proof (cases mu)
  case (Insert k x)
  obtain s' q added t' where r: "insert_at s (map_root m) k x = Some (s', q, added)" "prefix s s'"
      "tree_at s' q t'" "size_inv t'" "inorder t' = ins_list k x (inorder t)"
    using insert_at_tree [OF assms] by blast
  have "bst t'" using assms(3) r(5) by (simp add: bst_def sorted_ins_list)
  with r Insert show ?thesis
    by (intro exI [of _ s'] exI [of _ "\<lparr>map_root = q\<rparr>"] exI [of _ t'])
       (simp add: mutate_def map_insert_def)
next
  case (Erase k)
  obtain s' q found t' where r: "erase_at s (map_root m) k = Some (s', q, found)" "prefix s s'"
      "tree_at s' q t'" "size_inv t'" "inorder t' = del_list k (inorder t)"
    using erase_at_tree [OF assms] by blast
  have "bst t'" using assms(3) r(5) by (simp add: bst_def sorted_del_list)
  with r Erase show ?thesis
    by (intro exI [of _ s'] exI [of _ "\<lparr>map_root = q\<rparr>"] exI [of _ t'])
       (simp add: mutate_def map_erase_def)
qed

lemma valid_prefix: "prefix s s' \<Longrightarrow> valid s h \<Longrightarrow> valid s' h"
  unfolding valid_def using tree_at_prefix by blast

lemma mutate_valid':
  assumes "valid s h"
  shows "\<exists>s' h'. mutate s h mu = Some (s', h') \<and> prefix s s' \<and> valid s' h'"
  using assms mutate_valid [of s h _ mu] unfolding valid_def by blast

lemma session_returns:
  assumes "\<forall>h \<in> set hs. valid s h"
  shows "\<exists>s' hs'. session s hs steps = Some (s', hs') \<and> prefix s s'"
  using assms
proof (induction steps arbitrary: s hs)
  case Nil
  then show ?case by simp
next
  case (Cons step steps)
  obtain i mu where step: "step = (i, mu)" by (cases step)
  show ?case
  proof (cases "i < length hs")
    case False
    with step Cons.IH [OF Cons.prems] show ?thesis by simp
  next
    case True
    then have "valid s (hs ! i)" using Cons.prems by simp
    then obtain s1 h where m: "mutate s (hs ! i) mu = Some (s1, h)" "prefix s s1" "valid s1 h"
      using mutate_valid' by blast
    have "\<forall>h' \<in> set (hs @ [h]). valid s1 h'"
      using Cons.prems m(2,3) valid_prefix by auto
    then obtain s2 hs2 where r: "session s1 (hs @ [h]) steps = Some (s2, hs2)" "prefix s1 s2"
      using Cons.IH by blast
    have "prefix s s2" using m(2) r(2) by (rule prefix_order.trans)
    with step True m(1) r(1) show ?thesis by simp
  qed
qed

text \<open>
  The scenario of the specification: from the empty map, inserting \<open>(1, a)\<close>,
  \<open>(2, b)\<close> and \<open>(3, c)\<close> gives the sequence of the three pairs and size 3; erasing
  key 2 gives \<open>(1, a), (3, c)\<close>, while the three-element handle still yields all three.
\<close>

lemma scenario:
  "do {
     (s1, v1, a1) \<leftarrow> map_insert [] map_ctor (1::nat) ''a'';
     (s2, v2, a2) \<leftarrow> map_insert s1 v1 2 ''b'';
     (s3, v3, a3) \<leftarrow> map_insert s2 v2 3 ''c'';
     (s4, v4, f4) \<leftarrow> map_erase s3 v3 2;
     before \<leftarrow> map_inorder s3 v3;
     after \<leftarrow> map_inorder s4 v4;
     old \<leftarrow> map_inorder s4 v3;
     Some (before, map_size s3 v3, after, old)
   } = Some ([(1, ''a''), (2, ''b''), (3, ''c'')], Inr 3, [(1, ''a''), (3, ''c'')],
             [(1, ''a''), (2, ''b''), (3, ''c'')])"
  by (simp add: map_insert_def map_erase_def map_ctor_def map_inorder_def
      map_size_def load_def insert_at.simps erase_at.simps min_at.simps inorder_at.simps
      balance_def mk_def sz_def get_def nth_append)

section \<open>The claims\<close>

text \<open>
  Claim C1. Let \<open>v1\<close> be a handle on a tree of the store that satisfies the size and
  the ordering invariant. Every insertion and every erasure on \<open>v1\<close> returns a store and
  a new handle; the in-order sequence read from \<open>v1\<close> in the new store is the one read
  before, and it is still the same after any session of further insertions and erasures
  on the new handle and on the handles made from it.
\<close>

theorem persistence:
  assumes "tree_at s (map_root v1) t" and "size_inv t" and "bst t"
  shows "\<exists>s' v2. mutate s v1 mu = Some (s', v2) \<and>
           map_inorder s v1 = Some (inorder t) \<and>
           map_inorder s' v1 = Some (inorder t) \<and>
           (\<exists>s'' hs. session s' [v2] steps = Some (s'', hs) \<and>
              map_inorder s'' v1 = Some (inorder t))"
proof -
  obtain s' v2 t' where a: "mutate s v1 mu = Some (s', v2)" "prefix s s'"
      "tree_at s' (map_root v2) t'" "size_inv t'" "bst t'"
    using mutate_valid [OF assms] by blast
  have "\<forall>h \<in> set [v2]. valid s' h" using a(3-5) by (auto simp: valid_def)
  then obtain s'' hs where b: "session s' [v2] steps = Some (s'', hs)" "prefix s' s''"
    using session_returns by blast
  have t1: "tree_at s' (map_root v1) t" using tree_at_prefix [OF a(2) assms(1)] .
  have t2: "tree_at s'' (map_root v1) t" using tree_at_prefix [OF b(2) t1] .
  show ?thesis
    using a(1) b(1) inorder_at_tree [OF assms(1)] inorder_at_tree [OF t1] inorder_at_tree [OF t2]
    by (simp add: map_inorder_def)
qed

theorem persistence_witness:
  "tree_at store3 (map_root \<lparr>map_root = Some 2\<rparr>) tree3 \<and> size_inv tree3 \<and> bst tree3 \<and>
   (\<exists>s' v2. mutate store3 \<lparr>map_root = Some 2\<rparr> (Erase 2) = Some (s', v2) \<and>
      map_inorder store3 \<lparr>map_root = Some 2\<rparr> = Some (inorder tree3) \<and>
      map_inorder s' \<lparr>map_root = Some 2\<rparr> = Some (inorder tree3) \<and>
      (\<exists>s'' hs. session s' [v2] [(0, Insert 4 40), (0, Erase 1), (1, Insert 2 21)]
           = Some (s'', hs) \<and>
         map_inorder s'' \<lparr>map_root = Some 2\<rparr> = Some (inorder tree3)))"
proof -
  have h: "tree_at store3 (map_root \<lparr>map_root = Some 2\<rparr>) tree3" "size_inv tree3" "bst tree3"
    by (simp_all add: store3_def tree3_def bst_def)
  show ?thesis
    using h persistence [OF h, of "Erase 2" "[(0, Insert 4 40), (0, Erase 1), (1, Insert 2 21)]"]
    by simp
qed

text \<open>
  Claim C2. On the three-node tree of \<open>store3\<close>, which satisfies the size and the
  ordering invariant, the descent from the root with index 0 returns the root itself,
  the pair with key 2, where the in-order traversal starts with key 1, the node that
  \<open>rank_select\<close> returns; with index 2 it stops in a null dereference. \<^verbatim>\<open>node::operator[]\<close>, the built-in pointer subscript,
  yields the root at index 0 as well.
\<close>

theorem node_plus_wrong_node:
  "tree_at store3 (Some 2) tree3 \<and> size_inv tree3 \<and> bst tree3 \<and> stored tree3 = 3 \<and>
   node_plus store3 (Some 2) 0 = Some (Inr (Some 2)) \<and>
   node_v (store3 ! 2) = (2, 20) \<and> inorder tree3 ! 0 = (1, 10) \<and>
   rank_select store3 (Some 2) 0 = Some (Some 0) \<and> node_v (store3 ! 0) = (1, 10) \<and>
   node_plus store3 (Some 2) 2 = Some (Inl NullDeref) \<and>
   node_index store3 (Some 2) 0 = Inr (store3 ! 2)"
  by (simp add: store3_def tree3_def bst_def node_plus_def plus_loop.simps plus_body_def
      load_def node_left_def node_right_def node_index_def ptr_index_def ptr_add_def
      rank_select.simps get_def sz_def)

text \<open>
  Claim C3. On the single-node tree of \<open>store1\<close>, which satisfies both invariants, the
  descent with the only index in range, 0, follows the null right child of the root.
\<close>

theorem node_plus_null_deref:
  "tree_at store1 (Some 0) tree1 \<and> size_inv tree1 \<and> bst tree1 \<and> 0 < stored tree1 \<and>
   node_plus store1 (Some 0) 0 = Some (Inl NullDeref)"
  by (simp add: store1_def tree1_def bst_def node_plus_def plus_loop.simps plus_body_def
      load_def node_left_def node_right_def)

text \<open>
  Claim C4. No node the constructor makes satisfies the size invariant: it stores the
  count 0 where a node without children has the count 1.
\<close>

theorem node_ctor_breaks_size_inv:
  "tree_at (s @ [node_ctor v]) (Some (length s)) (Node Leaf v 0 Leaf) \<and>
   \<not> size_inv (Node Leaf v 0 Leaf) \<and>
   node_n (node_ctor v) \<noteq> 1 + stored Leaf + stored Leaf"
  by (simp add: node_ctor_def)

text \<open>
  Claim C5. Let \<open>v1\<close> be a handle on a tree that satisfies the size and the ordering
  invariant, and \<open>k\<close> a key that \<open>find\<close> does not find in \<open>v1\<close>. Then inserting
  \<open>(k, x)\<close> reports the key as added and returns a handle \<open>v2\<close> in which \<open>find\<close> of
  \<open>k\<close> yields \<open>x\<close> and whose \<^verbatim>\<open>size()\<close> is that of \<open>v1\<close> plus one.
\<close>

theorem insert_then_find:
  assumes "tree_at s (map_root v1) t" and "size_inv t" and "bst t"
    and "map_find s v1 k = Some None"
  shows "\<exists>s' v2 n. map_insert s v1 k x = Some (s', v2, True) \<and>
           map_find s' v2 k = Some (Some x) \<and>
           map_size s v1 = Inr n \<and> map_size s' v2 = Inr (n + 1)"
proof -
  have "map_find s v1 k = Some (map_of (inorder t) k)"
    unfolding map_find_def using find_tree [OF assms(1,3)] .
  with assms(4) have absent: "k \<notin> fst ` set (inorder t)"
    by (simp add: map_of_eq_None_iff)
  obtain s' q added t' where r: "insert_at s (map_root v1) k x = Some (s', q, added)"
      "tree_at s' q t'" "size_inv t'" "inorder t' = ins_list k x (inorder t)"
      "added = (k \<notin> fst ` set (inorder t))"
    using insert_at_tree [OF assms(1-3)] by blast
  have b': "bst t'" using assms(3) r(4) by (simp add: bst_def sorted_ins_list)
  have "map_find s' \<lparr>map_root = q\<rparr> k = Some (map_of (inorder t') k)"
    unfolding map_find_def using find_tree [of s' q t'] r(2) b' by simp
  then have f: "map_find s' \<lparr>map_root = q\<rparr> k = Some (Some x)"
    using r(4) absent by (simp add: map_of_ins_list)
  have "stored t' = stored t + 1"
    using r(3,4) assms(2) absent by (simp add: size_inv_stored length_ins_list)
  then have n: "map_size s' \<lparr>map_root = q\<rparr> = Inr (stored t + 1)"
    using map_size_tree [of s' "\<lparr>map_root = q\<rparr>" t'] r(2) by simp
  have "map_insert s v1 k x = Some (s', \<lparr>map_root = q\<rparr>, True)"
    using r(1,5) absent by (simp add: map_insert_def)
  with f n map_size_tree [OF assms(1)] show ?thesis by blast
qed

theorem insert_then_find_witness:
  "tree_at store3 (map_root \<lparr>map_root = Some 2\<rparr>) tree3 \<and> size_inv tree3 \<and> bst tree3 \<and>
   map_find store3 \<lparr>map_root = Some 2\<rparr> 4 = Some None \<and>
   (\<exists>s' v2 n. map_insert store3 \<lparr>map_root = Some 2\<rparr> 4 40 = Some (s', v2, True) \<and>
      map_find s' v2 4 = Some (Some 40) \<and>
      map_size store3 \<lparr>map_root = Some 2\<rparr> = Inr n \<and> map_size s' v2 = Inr (n + 1))"
proof -
  have h: "tree_at store3 (map_root \<lparr>map_root = Some 2\<rparr>) tree3" "size_inv tree3" "bst tree3"
    by (simp_all add: store3_def tree3_def bst_def)
  have f: "map_find store3 \<lparr>map_root = Some 2\<rparr> 4 = Some None"
    by (simp add: map_find_def find_at.simps get_def store3_def)
  show ?thesis using h f insert_then_find [OF h f, of 40] by simp
qed

text \<open>
  Claim C6. A default-constructed map has size 0 and is empty; a map with no root has
  size 0, and a map with a root has the size its root node stores in \<^verbatim>\<open>_n\<close>.
\<close>

theorem map_size_is_root_count:
  "map_size s map_ctor = Inr 0 \<and> map_empty s map_ctor = Inr True \<and>
   (map_root m = None \<longrightarrow> map_size s m = Inr 0) \<and>
   (map_root m \<noteq> None \<and> load s (map_root m) = Inr nd \<longrightarrow> map_size s m = Inr (node_n nd))"
  by (simp add: map_size_def map_empty_def map_ctor_def)

theorem map_size_is_root_count_witness:
  "map_root \<lparr>map_root = Some 2\<rparr> \<noteq> None \<and>
   load store3 (map_root \<lparr>map_root = Some 2\<rparr>) = Inr (store3 ! 2) \<and>
   map_size store3 \<lparr>map_root = Some 2\<rparr> = Inr 3 \<and>
   map_root \<lparr>map_root = None\<rparr> = None \<and>
   map_size store3 \<lparr>map_root = None\<rparr> = Inr 0"
  using map_size_is_root_count [of store3 "\<lparr>map_root = Some 2\<rparr>" "store3 ! 2"]
    map_size_is_root_count [of store3 "\<lparr>map_root = None\<rparr>" "store3 ! 2"]
  by (simp add: store3_def load_def)

text \<open>
  Claim C7, as the code has it. Two iterators compare equal exactly when their rank
  indices are equal; the root they hold is not looked at. \<^verbatim>\<open>operator!=\<close> is the
  negation of \<^verbatim>\<open>operator==\<close>. The same holds for \<^verbatim>\<open>const_iterator\<close>.
\<close>

theorem iterator_eq_compares_index_only:
  "(iterator_eq a b \<longleftrightarrow> it_index a = it_index b) \<and>
   (iterator_neq a b \<longleftrightarrow> \<not> iterator_eq a b) \<and>
   (const_iterator_eq a b \<longleftrightarrow> it_index a = it_index b) \<and>
   (const_iterator_neq a b \<longleftrightarrow> \<not> const_iterator_eq a b)"
  by (simp add: iterator_eq_def iterator_neq_def const_iterator_eq_def const_iterator_neq_def)

text \<open>
  Claim C7 as stated fails: two iterators over different roots with the same index
  compare equal.
\<close>

theorem iterator_eq_ignores_root:
  "\<not> (iterator_eq (iterator_ctor (Some 0) 0) (iterator_ctor (Some 1) 0) \<longleftrightarrow>
        it_root (iterator_ctor (Some 0) 0) = it_root (iterator_ctor (Some 1) 0) \<and>
        it_index (iterator_ctor (Some 0) 0) = it_index (iterator_ctor (Some 1) 0))"
  by (simp add: iterator_eq_def iterator_ctor_def)

text \<open>
  Claim C9. The constructor leaves \<^verbatim>\<open>_n\<close> at 0 and both children null. A map whose
  root is such a node, wherever it lies in the store, reports size 0 and empty, while
  the tree under its root holds the one pair \<open>v\<close>.
\<close>

theorem node_ctor_count_is_zero:
  "node_n (node_ctor v) = 0 \<and> node_l (node_ctor v) = None \<and> node_r (node_ctor v) = None \<and>
   map_size (s @ [node_ctor v]) \<lparr>map_root = Some (length s)\<rparr> = Inr 0 \<and>
   map_empty (s @ [node_ctor v]) \<lparr>map_root = Some (length s)\<rparr> = Inr True \<and>
   tree_at (s @ [node_ctor v]) (Some (length s)) (Node Leaf v 0 Leaf) \<and>
   inorder (Node Leaf v 0 Leaf) = [v]"
  by (simp add: node_ctor_def map_size_def map_empty_def load_def)

text \<open>
  Claim C10. Calling a \<^verbatim>\<open>value_compare\<close> built from the key comparison \<open>c\<close> on two
  pairs returns \<open>c\<close> of their keys; the mapped values play no part.
\<close>

theorem value_compare_is_key_compare:
  "value_compare_call (value_compare_ctor c) x y = c (fst x) (fst y) \<and>
   value_compare_call (value_compare_ctor c) (k1, a1) (k2, a2) =
     value_compare_call (value_compare_ctor c) (k1, b1) (k2, b2)"
  by (simp add: value_compare_call_def value_compare_ctor_def)

end
